theory Spec2Isabelle
  imports Main "HOL-Library.AList" "HOL-Library.Sublist"
begin

section \<open>Text and character classes\<close>

text \<open>
  A Python \<open>str\<close> is modelled as a \<open>string\<close>: one \<open>char\<close> per code point, for the code
  points 0 to 255. The character tables below are those of Python 3 for that range
  (\<open>str.isspace\<close>, which \<open>\s\<close> and \<open>str.strip\<close> share; \<open>\d\<close>; \<open>\w\<close>).
\<close>

definition newline :: char where
  "newline = CHR 0x0A"

definition is_space :: "char \<Rightarrow> bool" where
  "is_space c = (c \<in> set [CHR 0x09, CHR 0x0A, CHR 0x0B, CHR 0x0C, CHR 0x0D,
                           CHR 0x1C, CHR 0x1D, CHR 0x1E, CHR 0x1F, CHR 0x20,
                           CHR 0x85, CHR 0xA0])"

definition is_digit :: "char \<Rightarrow> bool" where
  "is_digit c = (c \<in> set ''0123456789'')"

definition upper_letters :: string where
  "upper_letters = ''ABCDEFGHIJKLMNOPQRSTUVWXYZ''"

definition lower_letters :: string where
  "lower_letters = ''abcdefghijklmnopqrstuvwxyz''"

definition in_range :: "nat \<Rightarrow> nat \<Rightarrow> char \<Rightarrow> bool" where
  "in_range lo hi c = (lo \<le> of_char c \<and> (of_char c :: nat) \<le> hi)"

definition is_word :: "char \<Rightarrow> bool" where
  \<comment> \<open>\<open>\w\<close> of a \<open>str\<close> pattern: alphanumeric or underscore\<close>
  "is_word c = (c \<in> set upper_letters \<or> c \<in> set lower_letters \<or> is_digit c \<or> c = CHR ''_''
     \<or> c \<in> set [CHR 0xAA, CHR 0xB2, CHR 0xB3, CHR 0xB5, CHR 0xB9, CHR 0xBA,
                  CHR 0xBC, CHR 0xBD, CHR 0xBE]
     \<or> in_range 0xC0 0xD6 c \<or> in_range 0xD8 0xF6 c \<or> in_range 0xF8 0xFF c)"

definition lower :: "char \<Rightarrow> char" where
  \<comment> \<open>case folding of the letters that occur in the program's patterns (ASCII)\<close>
  "lower c = (case map_of (zip upper_letters lower_letters) c of Some d \<Rightarrow> d | None \<Rightarrow> c)"

definition upper :: "char \<Rightarrow> char" where
  "upper c = (case map_of (zip lower_letters upper_letters) c of Some d \<Rightarrow> d | None \<Rightarrow> c)"

text \<open>The same case folding on the bits of the character, for evaluation.\<close>

lemma lower_code [code]:
  "lower c = (case c of Char b0 b1 b2 b3 b4 b5 b6 b7 \<Rightarrow>
      if b7 then c else if b5 then c else if b6 then
        (if b4 then (if b3 then (if b2 then c else if b1 then (if b0 then c
              else Char b0 b1 b2 b3 b4 True b6 b7) else Char b0 b1 b2 b3 b4 True b6 b7)
            else Char b0 b1 b2 b3 b4 True b6 b7)
         else if b3 then Char b0 b1 b2 b3 b4 True b6 b7
         else if b2 then Char b0 b1 b2 b3 b4 True b6 b7
         else if b1 then Char b0 b1 b2 b3 b4 True b6 b7
         else if b0 then Char b0 b1 b2 b3 b4 True b6 b7 else c)
      else c)"
  by (cases c) (simp add: lower_def upper_letters_def lower_letters_def)

lemma upper_code [code]:
  "upper c = (case c of Char b0 b1 b2 b3 b4 b5 b6 b7 \<Rightarrow>
      if b7 then c else if b5 then (if b6 then
        (if b4 then (if b3 then (if b2 then c else if b1 then (if b0 then c
              else Char b0 b1 b2 b3 b4 False b6 b7) else Char b0 b1 b2 b3 b4 False b6 b7)
            else Char b0 b1 b2 b3 b4 False b6 b7)
         else if b3 then Char b0 b1 b2 b3 b4 False b6 b7
         else if b2 then Char b0 b1 b2 b3 b4 False b6 b7
         else if b1 then Char b0 b1 b2 b3 b4 False b6 b7
         else if b0 then Char b0 b1 b2 b3 b4 False b6 b7 else c)
      else c) else c)"
  by (cases c) (simp add: upper_def upper_letters_def lower_letters_def)

section \<open>Regular expressions\<close>

text \<open>
  The patterns of the program are data. \<open>citem\<close> is one item of a bracket expression:
  a character, a range \<open>a-b\<close>, \<open>\s\<close>, \<open>\w\<close>, \<open>\d\<close>; \<open>cset\<close> is \<open>[...]\<close> or \<open>[^...]\<close>.
  Every repetition in the program's patterns is over a single character or class, so
  \<open>Rep c lo hi\<close> is the greedy \<open>c{lo,hi}\<close> (\<open>*\<close> is \<open>Rep c 0 None\<close>, \<open>+\<close> is
  \<open>Rep c 1 None\<close>, \<open>?\<close> on a class is \<open>Rep c 0 (Some 1)\<close>); \<open>Opt\<close> is the greedy \<open>(?:r)?\<close>;
  \<open>Grp\<close> is the capture group (the patterns have at most one); \<open>Eos\<close> is \<open>$\<close>.
\<close>

datatype citem = C char | R char char | S | W | D

datatype cset = In "citem list" | NotIn "citem list"

datatype regex =
    Lit string
  | Chr cset
  | Rep cset nat "nat option"
  | Seq regex regex
  | Alt regex regex
  | Opt regex
  | Grp regex
  | Eos

fun seqs :: "regex list \<Rightarrow> regex" where
  "seqs [] = Lit []"
| "seqs [r] = r"
| "seqs (r # rs) = Seq r (seqs rs)"

fun alts :: "regex list \<Rightarrow> regex" where
  "alts [] = Lit []"
| "alts [r] = r"
| "alts (r # rs) = Alt r (alts rs)"

fun has_group :: "regex \<Rightarrow> bool" where
  "has_group (Grp r) = True"
| "has_group (Seq a b) = (has_group a \<or> has_group b)"
| "has_group (Alt a b) = (has_group a \<or> has_group b)"
| "has_group (Opt a) = has_group a"
| "has_group _ = False"

fun item_mem :: "bool \<Rightarrow> citem \<Rightarrow> char \<Rightarrow> bool" where
  "item_mem ic (C c) x = (if ic then lower x = lower c else x = c)"
| "item_mem ic (R a b) x =
     (let r = in_range (of_char a) (of_char b)
      in if ic then r x \<or> r (lower x) \<or> r (upper x) else r x)"
| "item_mem ic S x = is_space x"
| "item_mem ic W x = is_word x"
| "item_mem ic D x = is_digit x"

fun mem :: "bool \<Rightarrow> cset \<Rightarrow> char \<Rightarrow> bool" where
  "mem ic (In items) x = (\<exists>i \<in> set items. item_mem ic i x)"
| "mem ic (NotIn items) x = (\<not> (\<exists>i \<in> set items. item_mem ic i x))"

subsection \<open>The backtracking matcher\<close>

text \<open>
  A match state is the text still to be read and the text captured by the group so far.
  \<open>m ic r st k\<close> matches \<open>r\<close> at the front of the state and hands the state after it to the
  continuation \<open>k\<close>; when \<open>k\<close> fails, the next alternative of \<open>r\<close> is tried, in the
  order of Python's engine: alternatives left to right, a greedy repetition from the
  longest count down. \<open>ic\<close> is the flag \<open>re.IGNORECASE\<close>.
\<close>

type_synonym mstate = "string \<times> string option"

text \<open>
  The greedy repetition \<open>c{lo,hi}\<close>: one more character is read while the class and the
  upper bound allow it, and the continuation is tried at the longest count first, then at
  each shorter one down to \<open>lo\<close>.
\<close>

fun rep :: "bool \<Rightarrow> cset \<Rightarrow> nat \<Rightarrow> nat option \<Rightarrow> string \<Rightarrow> string option
    \<Rightarrow> (mstate \<Rightarrow> mstate option) \<Rightarrow> mstate option" where
  "rep ic c lo hi [] g k = (if lo = 0 then k ([], g) else None)"
| "rep ic c lo hi (x # xs) g k =
     (if hi = Some 0 then (if lo = 0 then k (x # xs, g) else None)
      else if mem ic c x then
        (case rep ic c (lo - 1) (map_option (\<lambda>h. h - 1) hi) xs g k of
           Some y \<Rightarrow> Some y
         | None \<Rightarrow> if lo = 0 then k (x # xs, g) else None)
      else if lo = 0 then k (x # xs, g) else None)"

fun lit_rest :: "bool \<Rightarrow> string \<Rightarrow> string \<Rightarrow> string option" where
  "lit_rest ic [] s = Some s"
| "lit_rest ic (c # cs) [] = None"
| "lit_rest ic (c # cs) (x # xs) = (if item_mem ic (C c) x then lit_rest ic cs xs else None)"

fun m :: "bool \<Rightarrow> regex \<Rightarrow> mstate \<Rightarrow> (mstate \<Rightarrow> mstate option) \<Rightarrow> mstate option" where
  "m ic (Lit w) (s, g) k = (case lit_rest ic w s of None \<Rightarrow> None | Some s' \<Rightarrow> k (s', g))"
| "m ic (Chr c) (s, g) k =
     (case s of [] \<Rightarrow> None | x # xs \<Rightarrow> if mem ic c x then k (xs, g) else None)"
| "m ic (Rep c lo hi) (s, g) k = rep ic c lo hi s g k"
| "m ic (Seq a b) st k = m ic a st (\<lambda>st'. m ic b st' k)"
| "m ic (Alt a b) st k = (case m ic a st k of Some x \<Rightarrow> Some x | None \<Rightarrow> m ic b st k)"
| "m ic (Opt a) st k = (case m ic a st k of Some x \<Rightarrow> Some x | None \<Rightarrow> k st)"
| "m ic (Grp a) (s, g) k =
     m ic a (s, g) (\<lambda>(s', g'). k (s', Some (take (length s - length s') s)))"
| "m ic Eos (s, g) k = (if s = [] \<or> s = [newline] then k (s, g) else None)"

text \<open>
  One attempt at one position. With \<open>adv\<close> set (the engine's \<open>must_advance\<close>) a match that
  reads nothing is refused there and the engine backtracks.
\<close>

definition match_at :: "bool \<Rightarrow> regex \<Rightarrow> bool \<Rightarrow> string \<Rightarrow> mstate option" where
  "match_at ic r adv s =
     m ic r (s, None)
       (\<lambda>(s', g). if adv then (if length s' = length s then None else Some (s', g))
                 else Some (s', g))"

text \<open>
  \<open>scan\<close> is the search: the attempt is made at each position from the left, the end of
  the text included; \<open>must_advance\<close> holds for the first position only. The result is the
  text skipped, the text matched, the group and the text after the match.
\<close>

fun scan :: "bool \<Rightarrow> regex \<Rightarrow> bool \<Rightarrow> string \<Rightarrow> string
    \<Rightarrow> (string \<times> string \<times> string option \<times> string) option" where
  "scan ic r adv pre s =
     (case match_at ic r adv s of
        Some (s', g) \<Rightarrow> Some (rev pre, take (length s - length s') s, g, s')
      | None \<Rightarrow> (case s of [] \<Rightarrow> None | x # xs \<Rightarrow> scan ic r False (x # pre) xs))"

declare scan.simps [simp del]


lemma rep_suffix:
  "rep ic c lo hi s g k = Some y \<Longrightarrow> \<exists>s'. k (s', g) = Some y \<and> suffix s' s"
proof (induction ic c lo hi s g k rule: rep.induct)
  case (1 ic c lo hi g k)
  then show ?case by (auto split: if_splits)
next
  case (2 ic c lo hi x xs g k)
  show ?case
  proof (cases "k (x # xs, g) = Some y")
    case True
    then show ?thesis by (intro exI[of _ "x # xs"]) simp
  next
    case False
    with "2.prems" have "hi \<noteq> Some 0" "mem ic c x"
      and "rep ic c (lo - 1) (map_option (\<lambda>h. h - 1) hi) xs g k = Some y"
      by (auto split: if_splits option.splits)
    from "2.IH"[OF this] show ?thesis by (auto intro: suffix_ConsI)
  qed
qed

lemma lit_rest_suffix: "lit_rest ic w s = Some s' \<Longrightarrow> suffix s' s"
  by (induction ic w s rule: lit_rest.induct) (auto split: if_splits intro: suffix_ConsI)

lemma m_suffix:
  "m ic r st k = Some x \<Longrightarrow> \<exists>st'. k st' = Some x \<and> suffix (fst st') (fst st)"
proof (induction r arbitrary: st k)
  case (Lit w)
  then show ?case
    by (cases st) (auto split: option.splits dest: lit_rest_suffix)
next
  case (Chr c)
  then show ?case
    by (cases st) (auto split: list.splits if_splits intro: suffix_ConsI)
next
  case (Rep c lo hi)
  obtain s g where st: "st = (s, g)" by (cases st)
  from Rep have "rep ic c lo hi s g k = Some x" unfolding st by simp
  from rep_suffix[OF this] obtain s' where "k (s', g) = Some x" "suffix s' s" by auto
  then show ?case unfolding st by (intro exI[of _ "(s', g)"]) simp
next
  case (Seq a b)
  from Seq.prems obtain st1 where 1: "m ic b st1 k = Some x" "suffix (fst st1) (fst st)"
    using Seq.IH(1)[of st "\<lambda>st'. m ic b st' k"] by auto
  from Seq.IH(2)[OF 1(1)] obtain st2 where "k st2 = Some x" "suffix (fst st2) (fst st1)"
    by auto
  with 1(2) show ?case by (blast intro: suffix_order.trans)
next
  case (Alt a b)
  then show ?case by (auto split: option.splits)
next
  case (Opt a)
  show ?case
  proof (cases "m ic a st k")
    case None
    with Opt.prems have "k st = Some x" by simp
    then show ?thesis by (intro exI[of _ st]) simp
  next
    case (Some y)
    with Opt.prems have "m ic a st k = Some x" by simp
    from Opt.IH[OF this] show ?thesis .
  qed
next
  case (Grp a)
  obtain s g where st: "st = (s, g)" by (cases st)
  from Grp.prems Grp.IH[of st "\<lambda>(s', g'). k (s', Some (take (length s - length s') s))"]
  show ?case unfolding st by (auto split: prod.splits)
next
  case Eos
  then show ?case by (cases st) (auto split: if_splits)
qed

lemma match_at_suffix:
  assumes "match_at ic r adv s = Some (s', g)"
  shows "suffix s' s" and "adv \<Longrightarrow> length s' < length s"
proof -
  let ?k = "\<lambda>(t, h). if adv then (if length t = length s then None else Some (t, h))
                       else Some (t, h)"
  from assms have "m ic r (s, None) ?k = Some (s', g)"
    unfolding match_at_def .
  from m_suffix[OF this] obtain st where st: "?k st = Some (s', g)" "suffix (fst st) s"
    by auto
  then have eq: "st = (s', g)" and na: "\<not> (adv \<and> length s' = length s)"
    by (auto split: prod.splits if_splits)
  from st(2) eq show "suffix s' s" by simp
  then have "length s' \<le> length s" by (rule suffix_length_le)
  with na show "adv \<Longrightarrow> length s' < length s" by auto
qed

lemma scan_parts:
  "scan ic r adv pre s = Some (p, mt, g, rest) \<Longrightarrow>
     \<exists>q. p = rev pre @ q \<and> q @ mt @ rest = s \<and> (adv \<and> q = [] \<longrightarrow> mt \<noteq> [])"
proof (induction ic r adv pre s rule: scan.induct)
  case (1 ic r adv pre s)
  show ?case
  proof (cases "match_at ic r adv s")
    case None
    with "1.prems" obtain x xs where s: "s = x # xs"
      and sc: "scan ic r False (x # pre) xs = Some (p, mt, g, rest)"
      by (subst (asm) scan.simps) (auto split: list.splits)
    from "1.IH"[OF None s sc] obtain q where "p = rev (x # pre) @ q" "q @ mt @ rest = xs"
      by auto
    then show ?thesis
      unfolding s by (intro exI[of _ "x # q"]) simp
  next
    case (Some a)
    obtain s' g' where a: "a = (s', g')" by (cases a)
    from Some a "1.prems" have eqs: "p = rev pre" "mt = take (length s - length s') s"
      "g = g'" "rest = s'" by (subst (asm) scan.simps, simp)+
    from match_at_suffix[OF Some[unfolded a]]
    have suf: "suffix s' s" and adv: "adv \<Longrightarrow> length s' < length s" by auto
    from suf obtain t where t: "s = t @ s'" by (auto simp: suffix_def)
    have "mt @ rest = s" unfolding eqs t by simp
    moreover have "adv \<Longrightarrow> mt \<noteq> []" using adv unfolding eqs t by auto
    ultimately show ?thesis using eqs(1) by (intro exI[of _ "[]"]) auto
  qed
qed

lemma scan_measure:
  assumes "scan ic r adv [] s = Some (p, mt, g, rest)"
  shows "2 * length rest + (if mt = [] then 0 else 1) < 2 * length s + (if adv then 0 else 1)"
proof -
  from scan_parts[OF assms] obtain q where q: "p = q" "q @ mt @ rest = s"
    "adv \<and> q = [] \<longrightarrow> mt \<noteq> []" by auto
  have len: "length s = length q + length mt + length rest"
    using q(2) by (metis length_append add.assoc)
  show ?thesis
  proof (cases "mt = []")
    case True
    with q(3) have "adv \<longrightarrow> q \<noteq> []" by auto
    with True len show ?thesis by (cases q) auto
  next
    case False
    with len show ?thesis by (cases mt) auto
  qed
qed

text \<open>
  The loop that \<open>re.findall\<close> and \<open>re.sub\<close> share: search from the current position, keep
  the match, go on from its end, with \<open>must_advance\<close> set after a match that read nothing.
  The result is the list of matches, each with the text skipped before it, and the text
  left over after the last match.
\<close>

function finditer :: "bool \<Rightarrow> regex \<Rightarrow> bool \<Rightarrow> string
    \<Rightarrow> (string \<times> string \<times> string option) list \<times> string" where
  "finditer ic r adv s =
     (case scan ic r adv [] s of
        None \<Rightarrow> ([], s)
      | Some (pre, mt, g, rest) \<Rightarrow>
          (case finditer ic r (mt = []) rest of
             (segs, tail) \<Rightarrow> ((pre, mt, g) # segs, tail)))"
  by pat_completeness auto
termination
  by (relation "measure (\<lambda>(ic, r, adv, s). 2 * length s + (if adv then 0 else 1))")
     (auto dest: scan_measure)

declare finditer.simps [simp del]

text \<open>
  \<open>re.findall\<close>: with no group in the pattern an item is the text matched, with one group
  it is the group's text (empty when the group took no part in the match).
\<close>

definition findall_item :: "regex \<Rightarrow> string \<Rightarrow> string option \<Rightarrow> string" where
  "findall_item r mt g =
     (if has_group r then (case g of None \<Rightarrow> [] | Some v \<Rightarrow> v) else mt)"

definition findall :: "bool \<Rightarrow> regex \<Rightarrow> string \<Rightarrow> string list" where
  "findall ic r s = map (\<lambda>(pre, mt, g). findall_item r mt g) (fst (finditer ic r False s))"

text \<open>\<open>re.sub\<close> with a constant replacement.\<close>

definition re_sub :: "bool \<Rightarrow> regex \<Rightarrow> string \<Rightarrow> string \<Rightarrow> string" where
  "re_sub ic r repl s =
     (case finditer ic r False s of
        (segs, tail) \<Rightarrow> concat (map (\<lambda>(pre, mt, g). pre @ repl) segs) @ tail)"

text \<open>\<open>re.search\<close>: the first match, as the text matched and the group.\<close>

definition re_search :: "bool \<Rightarrow> regex \<Rightarrow> string \<Rightarrow> (string \<times> string option) option" where
  "re_search ic r s = map_option (\<lambda>(pre, mt, g, rest). (mt, g)) (scan ic r False [] s)"


subsection \<open>What a match is\<close>

text \<open>
  \<open>steps ic r st st'\<close>: the pattern \<open>r\<close> can read the text between the states \<open>st\<close> and
  \<open>st'\<close>, setting the group on the way. The matcher only ever returns such matches
  (lemma \<open>m_sound\<close>).
\<close>

inductive steps :: "bool \<Rightarrow> regex \<Rightarrow> mstate \<Rightarrow> mstate \<Rightarrow> bool" for ic :: bool where
  st_Lit: "lit_rest ic w s = Some s' \<Longrightarrow> steps ic (Lit w) (s, g) (s', g)"
| st_Chr: "mem ic c x \<Longrightarrow> steps ic (Chr c) (x # xs, g) (xs, g)"
| st_Rep: "list_all (mem ic c) t \<Longrightarrow> lo \<le> length t \<Longrightarrow>
           (case hi of None \<Rightarrow> True | Some h \<Rightarrow> length t \<le> h) \<Longrightarrow>
           steps ic (Rep c lo hi) (t @ s', g) (s', g)"
| st_Seq: "steps ic a st st1 \<Longrightarrow> steps ic b st1 st2 \<Longrightarrow> steps ic (Seq a b) st st2"
| st_Alt1: "steps ic a st st' \<Longrightarrow> steps ic (Alt a b) st st'"
| st_Alt2: "steps ic b st st' \<Longrightarrow> steps ic (Alt a b) st st'"
| st_Opt1: "steps ic a st st' \<Longrightarrow> steps ic (Opt a) st st'"
| st_Opt2: "steps ic (Opt a) st st"
| st_Grp: "steps ic a (s, g) (s', g') \<Longrightarrow>
           steps ic (Grp a) (s, g) (s', Some (take (length s - length s') s))"
| st_Eos: "s = [] \<or> s = [newline] \<Longrightarrow> steps ic Eos (s, g) (s, g)"

section \<open>String operations of Python\<close>

datatype py_error = IndexError | KeyError | AttributeError | ValueError | LibraryError

definition strip :: "string \<Rightarrow> string" where
  \<comment> \<open>\<open>str.strip()\<close>\<close>
  "strip s = rev (dropWhile is_space (rev (dropWhile is_space s)))"

fun split_on :: "char \<Rightarrow> string \<Rightarrow> string list" where
  \<comment> \<open>\<open>str.split(c)\<close> for a separator of one character\<close>
  "split_on c [] = [[]]"
| "split_on c (x # xs) =
     (case split_on c xs of
        [] \<Rightarrow> [[x]]
      | w # ws \<Rightarrow> if x = c then [] # w # ws else (x # w) # ws)"

definition replace_char :: "char \<Rightarrow> string \<Rightarrow> string" where
  \<comment> \<open>\<open>str.replace(c, '')\<close>\<close>
  "replace_char c s = filter (\<lambda>x. x \<noteq> c) s"

definition index :: "'a list \<Rightarrow> nat \<Rightarrow> py_error + 'a" where
  \<comment> \<open>\<open>xs[i]\<close> for \<open>i \<ge> 0\<close>\<close>
  "index xs i = (if i < length xs then Inr (xs ! i) else Inl IndexError)"

section \<open>The broad extractor (script.py)\<close>

subsection \<open>The patterns\<close>

definition ws :: regex where
  \<comment> \<open>\<open>\s*\<close>\<close>
  "ws = Rep (In [S]) 0 None"

definition colon_dash :: regex where
  \<comment> \<open>\<open>[:\-]?\<close>\<close>
  "colon_dash = Rep (In [C CHR '':'', C CHR ''-'']) 0 (Some 1)"

definition dot_opt :: regex where
  \<comment> \<open>\<open>\.?\<close>\<close>
  "dot_opt = Rep (In [C CHR ''.'']) 0 (Some 1)"

definition rest_of_line :: regex where
  \<comment> \<open>\<open>(.*)\<close>: the dot is any character but the newline\<close>
  "rest_of_line = Grp (Rep (NotIn [C newline]) 0 None)"

definition rs_pkr :: regex where
  \<comment> \<open>\<open>(?:Rs\.?|PKR)\<close>\<close>
  "rs_pkr = Alt (Seq (Lit ''Rs'') dot_opt) (Lit ''PKR'')"

definition number :: regex where
  \<comment> \<open>\<open>([0-9,]+\.?[0-9]*)\<close>\<close>
  "number = Grp (seqs [Rep (In [R CHR ''0'' CHR ''9'', C CHR '','']) 1 None, dot_opt,
                       Rep (In [R CHR ''0'' CHR ''9'']) 0 None])"

definition sender_patterns :: "regex list" where
  "sender_patterns =
     [seqs [alts [Lit ''From'', Lit ''Sender'', Lit ''Funding Source'',
                  seqs [Lit ''Source Acc'', dot_opt, Lit '' Title''],
                  Lit ''Paid by'', Lit ''Payer''],
            ws, colon_dash, ws, rest_of_line]]"

definition receiver_patterns :: "regex list" where
  "receiver_patterns =
     [seqs [alts [Lit ''To'', Lit ''Receiver'', Lit ''Sent to'', Lit ''Beneficiary'',
                  Lit ''Payee'', seqs [Lit ''Destination Acc'', dot_opt, Lit '' Title'']],
            ws, colon_dash, ws, rest_of_line]]"

definition amount_patterns :: "regex list" where
  "amount_patterns =
     [seqs [rs_pkr, ws, Rep (In [C CHR ''.'', C CHR '':'']) 0 (Some 1), ws, number],
      seqs [alts [Lit ''Amount Sent'', Lit ''Total Amount'', Lit ''Amount''],
            ws, colon_dash, ws, Opt rs_pkr, ws, number]]"

definition bank_patterns :: "regex list" where
  "bank_patterns =
     [alts [Lit ''Silk Bank'',
            seqs [Lit ''Easypaisa Bank'', Rep (In [C CHR ''-'']) 0 (Some 1),
                  Rep (In [D]) 0 None],
            Lit ''NayaPay'',
            seqs [Rep (NotIn [C newline]) 0 None, Rep (In [C CHR ''*'']) 4 None,
                  Rep (In [D]) 3 (Some 4)],
            Rep (In [R CHR ''0'' CHR ''9'']) 9 (Some 14)],
      seqs [alts [seqs [Lit ''Bank'', ws, Lit ''Account''],
                  seqs [Lit ''Acct'', ws, Lit ''No'', dot_opt],
                  Lit ''Account''],
            ws, colon_dash, ws,
            Grp (Rep (In [W, C CHR ''-'', C CHR ''*'']) 1 None)]]"

definition transaction_id_patterns :: "regex list" where
  "transaction_id_patterns =
     [seqs [alts [Lit ''Transaction ID'', seqs [Lit ''Trans'', dot_opt, Lit '' ID''],
                  Lit ''Tx ID'', Lit ''Ref#'', Lit ''Reference'', Lit ''Ref''],
            ws, colon_dash, ws, Grp (Rep (In [W, D, C CHR ''-'']) 1 None)]]"

definition reference_patterns :: "regex list" where
  "reference_patterns =
     [seqs [alts [Lit ''Ref'', Lit ''Ref#'', Lit ''Reference''],
            ws, colon_dash, ws, Grp (Rep (In [W, D, C CHR ''-'']) 1 None)]]"

definition status_patterns :: "regex list" where
  "status_patterns =
     [Grp (alts [Lit ''Transaction Successful'', Lit ''Transaction successful'',
                 Lit ''Money has been sent'', Lit ''Successfully Sent''])]"

definition override_sender_pattern :: regex where
  "override_sender_pattern = seqs [Lit ''by'', ws, colon_dash, ws, rest_of_line]"

definition trailing_punct :: regex where
  \<comment> \<open>\<open>[.,:;]+$\<close>\<close>
  "trailing_punct =
     Seq (Rep (In [C CHR ''.'', C CHR '','', C CHR '':'', C CHR '';'']) 1 None) Eos"

subsection \<open>\<open>find_first_match\<close> and \<open>extract_data\<close>\<close>

fun find_first_match :: "string \<Rightarrow> regex list \<Rightarrow> py_error + string option" where
  "find_first_match text [] = Inr None"
| "find_first_match text (pat # patterns) =
     (let matches = findall True pat text in
      if matches \<noteq> [] then
        (case index matches 0 of
           Inl e \<Rightarrow> Inl e
         | Inr m0 \<Rightarrow>
            (let raw_value = strip m0 in
             case index (split_on newline raw_value) 0 of
               Inl e \<Rightarrow> Inl e
             | Inr line \<Rightarrow>
                (let v = strip line;
                     v = re_sub False trailing_punct [] v
                 in Inr (Some v))))
      else find_first_match text patterns)"

text \<open>
  The dict \<open>data\<close> is an association list in insertion order; an assignment to a key
  updates it in place, a read of a key that is missing raises \<open>KeyError\<close>.
\<close>

type_synonym pydict = "(string \<times> string option) list"

definition getitem :: "pydict \<Rightarrow> string \<Rightarrow> py_error + string option" where
  "getitem d k = (case map_of d k of None \<Rightarrow> Inl KeyError | Some v \<Rightarrow> Inr v)"

definition setitem :: "pydict \<Rightarrow> string \<Rightarrow> string option \<Rightarrow> pydict" where
  "setitem d k v = AList.update k v d"

definition falsy :: "string option \<Rightarrow> bool" where
  \<comment> \<open>\<open>not v\<close> for \<open>v\<close> a string or \<open>None\<close>\<close>
  "falsy v = (v = None \<or> v = Some [])"

definition bind :: "py_error + 'a \<Rightarrow> ('a \<Rightarrow> py_error + 'b) \<Rightarrow> py_error + 'b" where
  "bind x f = (case x of Inl e \<Rightarrow> Inl e | Inr v \<Rightarrow> f v)"

definition assign :: "string \<Rightarrow> string \<Rightarrow> regex list \<Rightarrow> pydict \<Rightarrow> py_error + pydict" where
  \<comment> \<open>\<open>data[key] = find_first_match(text, patterns)\<close>\<close>
  "assign text key patterns data =
     bind (find_first_match text patterns) (\<lambda>v. Inr (setitem data key v))"

definition data0 :: pydict where
  "data0 = [(''Sender'', None), (''Receiver'', None), (''Amount'', None),
            (''Bank_Details'', None), (''Transaction_ID'', None),
            (''Reference_Number'', None), (''Transaction_Status'', None)]"

definition extract_data :: "string \<Rightarrow> py_error + pydict" where
  "extract_data text =
     bind (assign text ''Sender'' sender_patterns data0) (\<lambda>data.
     bind (assign text ''Receiver'' receiver_patterns data) (\<lambda>data.
     bind (assign text ''Amount'' amount_patterns data) (\<lambda>data.
     bind (assign text ''Bank_Details'' bank_patterns data) (\<lambda>data.
     bind (assign text ''Transaction_ID'' transaction_id_patterns data) (\<lambda>data.
     bind (assign text ''Reference_Number'' reference_patterns data) (\<lambda>data.
     bind (assign text ''Transaction_Status'' status_patterns data) (\<lambda>data.
     bind (getitem data ''Sender'') (\<lambda>sender.
       if falsy sender
       then assign text ''Sender'' [override_sender_pattern] data
       else Inr data))))))))"


subsection \<open>Text cleanup after OCR\<close>

definition non_ascii_run :: regex where
  \<comment> \<open>\<open>[^\x00-\x7F]+\<close>\<close>
  "non_ascii_run = Rep (NotIn [R (CHR 0x00) (CHR 0x7F)]) 1 None"

definition space_run :: regex where
  \<comment> \<open>\<open>\s+\<close>\<close>
  "space_run = Rep (In [S]) 1 None"

definition normalize :: "string \<Rightarrow> string" where
  \<comment> \<open>the two substitutions and the \<open>strip\<close> of \<open>extract_text_from_image\<close>\<close>
  "normalize text =
     (let text = re_sub False non_ascii_run '' '' text;
          text = strip (re_sub False space_run '' '' text)
      in text)"

text \<open>
  The collaborators outside the program (OpenCV, Tesseract, \<open>os.path\<close>) are parameters:
  \<open>imread\<close> gives no image for a file it cannot decode, \<open>threshold\<close> is the filter chain
  (its arguments: adaptive method, morphology), \<open>image_to_string\<close> is the OCR call, which
  may raise.
\<close>

record 'img env =
  imread :: "string \<Rightarrow> 'img option"
  threshold :: "bool \<Rightarrow> bool \<Rightarrow> 'img \<Rightarrow> 'img"
  image_to_string :: "'img \<Rightarrow> py_error + string"
  basename :: "string \<Rightarrow> string"

definition preprocess_image :: "'img env \<Rightarrow> string \<Rightarrow> string \<Rightarrow> bool \<Rightarrow> py_error + 'img" where
  "preprocess_image e image_path method use_morphology =
     (case imread e image_path of
        None \<Rightarrow> Inl ValueError
      | Some img \<Rightarrow> Inr (threshold e (map lower method = ''adaptive'') use_morphology img))"

definition extract_text_from_image :: "'img env \<Rightarrow> 'img \<Rightarrow> py_error + string" where
  "extract_text_from_image e img = bind (image_to_string e img) (\<lambda>text. Inr (normalize text))"

subsection \<open>The loop over the images\<close>

datatype event = Processed string | Error_processing string py_error

definition process_image :: "'img env \<Rightarrow> string \<Rightarrow> py_error + pydict" where
  \<comment> \<open>the body of the \<open>try\<close>, up to the row that is appended\<close>
  "process_image e img_file =
     bind (preprocess_image e img_file ''otsu'' True) (\<lambda>preprocessed.
     bind (extract_text_from_image e preprocessed) (\<lambda>ocr_text.
     bind (extract_data ocr_text) (\<lambda>parsed.
     Inr (setitem parsed ''Image'' (Some (basename e img_file))))))"

fun process_images :: "'img env \<Rightarrow> string list \<Rightarrow> pydict list \<times> event list
    \<Rightarrow> pydict list \<times> event list" where
  "process_images e [] (all_data, out) = (all_data, out)"
| "process_images e (img_file # image_files) (all_data, out) =
     (case process_image e img_file of
        Inr parsed \<Rightarrow>
          process_images e image_files (all_data @ [parsed], out @ [Processed img_file])
      | Inl err \<Rightarrow>
          process_images e image_files (all_data, out @ [Error_processing img_file err]))"

section \<open>The strict extractor (script2.py)\<close>

definition name_chars :: regex where
  \<comment> \<open>\<open>([\w &]+)\<close>\<close>
  "name_chars = Grp (Rep (In [W, C CHR '' '', C CHR ''&'']) 1 None)"

definition word_chars :: regex where
  \<comment> \<open>\<open>([\w]+)\<close>\<close>
  "word_chars = Grp (Rep (In [W]) 1 None)"

definition source_title_pattern :: regex where
  "source_title_pattern = seqs [Lit ''Source Acc'', dot_opt, ws, Lit ''Title'', ws, name_chars]"

definition sent_by_pattern :: regex where
  "sent_by_pattern = seqs [Lit ''Sent by'', ws, name_chars]"

definition destination_title_pattern :: regex where
  "destination_title_pattern =
     seqs [Lit ''Destination Acc'', dot_opt, ws, Lit ''Title'', ws, name_chars]"

definition to_pattern :: regex where
  "to_pattern = seqs [Lit ''To'', ws, name_chars]"

definition total_amount_pattern :: regex where
  \<comment> \<open>\<open>(?:Total Amount|Amount)\s*(?:Rs\.?\s*)?([\d,]+\.\d{2}|[\d,]+)\<close>\<close>
  "total_amount_pattern =
     seqs [Alt (Lit ''Total Amount'') (Lit ''Amount''), ws,
           Opt (seqs [Lit ''Rs'', dot_opt, ws]),
           Grp (Alt (seqs [Rep (In [D, C CHR '','']) 1 None, Chr (In [C CHR ''.'']),
                           Rep (In [D]) 2 (Some 2)])
                    (Rep (In [D, C CHR '','']) 1 None))]"

definition source_bank_pattern :: regex where
  "source_bank_pattern = seqs [Lit ''Source Bank'', ws, word_chars]"

definition destination_bank_pattern :: regex where
  "destination_bank_pattern = seqs [Lit ''Destination Bank'', ws, word_chars]"

definition group1 :: "string \<times> string option \<Rightarrow> py_error + string" where
  \<comment> \<open>\<open>match.group(1)\<close>, for the method call that follows it: \<open>None\<close> has no \<open>strip\<close>\<close>
  "group1 mt = (case snd mt of None \<Rightarrow> Inl AttributeError | Some v \<Rightarrow> Inr v)"

definition data0_clean :: pydict where
  "data0_clean = [(''Sender'', None), (''Receiver'', None), (''Total_Amount'', None),
                  (''Sender_Bank'', None), (''Receiver_Bank'', None)]"

definition extract_clean_data :: "string \<Rightarrow> py_error + pydict" where
  "extract_clean_data text0 =
     (let data = data0_clean;
          text = re_sub False space_run '' '' text0
      in
      bind (case re_search True source_title_pattern text of
              Some sender_match \<Rightarrow>
                bind (group1 sender_match) (\<lambda>v. Inr (setitem data ''Sender'' (Some (strip v))))
            | None \<Rightarrow>
               (case re_search True sent_by_pattern text of
                  Some sender_match \<Rightarrow>
                    bind (group1 sender_match) (\<lambda>v. Inr (setitem data ''Sender'' (Some (strip v))))
                | None \<Rightarrow> Inr data)) (\<lambda>data.
      bind (case re_search True destination_title_pattern text of
              Some receiver_match \<Rightarrow>
                bind (group1 receiver_match)
                  (\<lambda>v. Inr (setitem data ''Receiver'' (Some (strip v))))
            | None \<Rightarrow>
               (case re_search True to_pattern text of
                  Some receiver_match \<Rightarrow>
                    bind (group1 receiver_match)
                      (\<lambda>v. Inr (setitem data ''Receiver'' (Some (strip v))))
                | None \<Rightarrow> Inr data)) (\<lambda>data.
      bind (case re_search True total_amount_pattern text of
              Some amount_match \<Rightarrow>
                bind (group1 amount_match)
                  (\<lambda>v. Inr (setitem data ''Total_Amount''
                              (Some (strip (replace_char CHR '','' v)))))
            | None \<Rightarrow> Inr data) (\<lambda>data.
      bind (case re_search True source_bank_pattern text of
              Some sender_bank_match \<Rightarrow>
                bind (group1 sender_bank_match)
                  (\<lambda>v. Inr (setitem data ''Sender_Bank'' (Some (strip v))))
            | None \<Rightarrow> Inr data) (\<lambda>data.
      case re_search True destination_bank_pattern text of
        Some receiver_bank_match \<Rightarrow>
          bind (group1 receiver_bank_match)
            (\<lambda>v. Inr (setitem data ''Receiver_Bank'' (Some (strip v))))
      | None \<Rightarrow> Inr data)))))"


section \<open>Notions used in the statements\<close>

text \<open>
  \<open>clean_value\<close> is the cleanup that \<open>find_first_match\<close> applies to the first item of
  \<open>re.findall\<close>; \<open>ffm\<close> is the value that \<open>find_first_match\<close> returns;
  \<open>drop_trailing P\<close> removes the longest final run of characters in \<open>P\<close>; \<open>captured\<close> is
  the group of the first match.
\<close>

definition first_line :: "string \<Rightarrow> string" where
  "first_line s = takeWhile (\<lambda>c. c \<noteq> newline) s"

definition clean_value :: "string \<Rightarrow> string" where
  "clean_value m0 = re_sub False trailing_punct [] (strip (first_line (strip m0)))"

definition is_punct :: "char \<Rightarrow> bool" where
  "is_punct c = (c \<in> set ''.,:;'')"

fun drop_trailing :: "(char \<Rightarrow> bool) \<Rightarrow> string \<Rightarrow> string" where
  "drop_trailing P [] = []"
| "drop_trailing P (x # xs) = (if list_all P (x # xs) then [] else x # drop_trailing P xs)"

definition ffm :: "string \<Rightarrow> regex list \<Rightarrow> string option" where
  "ffm text patterns = (case find_first_match text patterns of Inr v \<Rightarrow> v | Inl e \<Rightarrow> None)"

definition sender_value :: "string \<Rightarrow> string option" where
  "sender_value text =
     (if falsy (ffm text sender_patterns) then ffm text [override_sender_pattern]
      else ffm text sender_patterns)"

definition value_ok :: "string option \<Rightarrow> bool" where
  "value_ok v =
     (case v of
        None \<Rightarrow> True
      | Some s \<Rightarrow> newline \<notin> set s \<and>
          (case s of [] \<Rightarrow> True | c # cs \<Rightarrow> \<not> is_space c \<and> \<not> is_punct (last s)))"

definition captured :: "regex \<Rightarrow> string \<Rightarrow> string option" where
  "captured r text = (case re_search True r text of None \<Rightarrow> None | Some mt \<Rightarrow> snd mt)"

fun ends_with_group :: "regex \<Rightarrow> bool" where
  "ends_with_group (Grp a) = True"
| "ends_with_group (Seq a b) = ends_with_group b"
| "ends_with_group _ = False"

definition broad_rules :: "regex list" where
  "broad_rules = sender_patterns @ receiver_patterns @ amount_patterns @ bank_patterns @
     transaction_id_patterns @ reference_patterns @ status_patterns @ [override_sender_pattern]"

definition strict_rules :: "regex list" where
  "strict_rules = [source_title_pattern, sent_by_pattern, destination_title_pattern, to_pattern,
     total_amount_pattern, source_bank_pattern, destination_bank_pattern]"

definition strict_sender :: "string \<Rightarrow> string option" where
  "strict_sender t =
     (case captured source_title_pattern t of
        Some v \<Rightarrow> Some (strip v)
      | None \<Rightarrow> map_option strip (captured sent_by_pattern t))"

definition strict_receiver :: "string \<Rightarrow> string option" where
  "strict_receiver t =
     (case captured destination_title_pattern t of
        Some v \<Rightarrow> Some (strip v)
      | None \<Rightarrow> map_option strip (captured to_pattern t))"

definition claimed_value_ok :: "string option \<Rightarrow> bool" where
  \<comment> \<open>the invariant of the specification: absent, or non-empty, trimmed on both sides, and
     not ending in \<open>.\<close>, \<open>,\<close>, \<open>:\<close> or \<open>;\<close>\<close>
  "claimed_value_ok v =
     (case v of
        None \<Rightarrow> True
      | Some s \<Rightarrow> s \<noteq> [] \<and> \<not> is_space (hd s) \<and> \<not> is_space (last s) \<and> \<not> is_punct (last s))"


definition decodes :: "'img env \<Rightarrow> string \<Rightarrow> bool" where
  "decodes e f =
     (case imread e f of
        None \<Rightarrow> False
      | Some img \<Rightarrow> (case image_to_string e (threshold e False True img) of
                      Inl err \<Rightarrow> False | Inr t \<Rightarrow> True))"

definition row_keys :: "string list" where
  "row_keys = [''Sender'', ''Receiver'', ''Amount'', ''Bank_Details'', ''Transaction_ID'',
               ''Reference_Number'', ''Transaction_Status'', ''Image'']"

definition five_images :: "nat env" where
  "five_images =
     \<lparr>imread = (\<lambda>f. if f = ''3.jpg'' then None else Some 0),
      threshold = (\<lambda>adaptive morphology img. img),
      image_to_string = (\<lambda>img. Inr ''From: Ali To: Bob''),
      basename = (\<lambda>f. f)\<rparr>"

section \<open>Properties of the matcher\<close>

lemma rep_sound:
  "rep ic c lo hi s g k = Some y \<Longrightarrow>
     \<exists>t s'. s = t @ s' \<and> list_all (mem ic c) t \<and> lo \<le> length t \<and>
       (case hi of None \<Rightarrow> True | Some h \<Rightarrow> length t \<le> h) \<and> k (s', g) = Some y"
proof (induction ic c lo hi s g k rule: rep.induct)
  case (1 ic c lo hi g k)
  then show ?case by (auto split: if_splits option.splits)
next
  case (2 ic c lo hi x xs g k)
  show ?case
  proof (cases "lo = 0 \<and> k (x # xs, g) = Some y")
    case True
    then show ?thesis
      by (intro exI[of _ "[]"] exI[of _ "x # xs"]) (auto split: option.splits)
  next
    case False
    with "2.prems" have h: "hi \<noteq> Some 0" "mem ic c x"
      and r: "rep ic c (lo - 1) (map_option (\<lambda>h. h - 1) hi) xs g k = Some y"
      by (auto split: if_splits option.splits)
    from "2.IH"[OF h r] obtain t s' where t: "xs = t @ s'" "list_all (mem ic c) t"
      "lo - 1 \<le> length t"
      "(case map_option (\<lambda>h. h - 1) hi of None \<Rightarrow> True | Some h \<Rightarrow> length t \<le> h)"
      "k (s', g) = Some y" by blast
    show ?thesis
      using t h by (intro exI[of _ "x # t"] exI[of _ s']) (auto split: option.splits)
  qed
qed

lemma m_sound:
  "m ic r st k = Some y \<Longrightarrow> \<exists>st'. steps ic r st st' \<and> k st' = Some y"
proof (induction r arbitrary: st k)
  case (Lit w)
  then show ?case
    by (cases st) (auto split: option.splits intro: st_Lit)
next
  case (Chr c)
  then show ?case
    by (cases st) (auto split: list.splits if_splits intro: st_Chr)
next
  case (Rep c lo hi)
  obtain s g where st: "st = (s, g)" by (cases st)
  from Rep have "rep ic c lo hi s g k = Some y" unfolding st by simp
  from rep_sound[OF this] show ?case unfolding st by (auto intro: st_Rep)
next
  case (Seq a b)
  from Seq.IH(1)[OF Seq.prems[simplified]] obtain st1
    where 1: "steps ic a st st1" "m ic b st1 k = Some y" by auto
  from Seq.IH(2)[OF 1(2)] obtain st2 where "steps ic b st1 st2" "k st2 = Some y" by auto
  with 1(1) show ?case by (blast intro: st_Seq)
next
  case (Alt a b)
  show ?case
  proof (cases "m ic a st k")
    case None
    with Alt.prems have "m ic b st k = Some y" by simp
    from Alt.IH(2)[OF this] show ?thesis by (blast intro: st_Alt2)
  next
    case (Some z)
    with Alt.prems have "m ic a st k = Some y" by simp
    from Alt.IH(1)[OF this] show ?thesis by (blast intro: st_Alt1)
  qed
next
  case (Opt a)
  show ?case
  proof (cases "m ic a st k")
    case None
    with Opt.prems have "k st = Some y" by simp
    then show ?thesis by (blast intro: st_Opt2)
  next
    case (Some z)
    with Opt.prems have "m ic a st k = Some y" by simp
    from Opt.IH[OF this] show ?thesis by (blast intro: st_Opt1)
  qed
next
  case (Grp a)
  obtain s g where st: "st = (s, g)" by (cases st)
  from Grp.prems have "m ic a (s, g)
      (\<lambda>(s', g'). k (s', Some (take (length s - length s') s))) = Some y"
    unfolding st by simp
  from Grp.IH[OF this] obtain s' g' where "steps ic a (s, g) (s', g')"
    "k (s', Some (take (length s - length s') s)) = Some y" by auto
  then show ?case unfolding st by (auto intro: st_Grp)
next
  case Eos
  then show ?case by (cases st) (auto split: if_splits intro: st_Eos)
qed

lemma scan_sound:
  "scan ic r adv pre s = Some (p, mt, g, rest) \<Longrightarrow>
     \<exists>q. p = rev pre @ q \<and> s = q @ mt @ rest \<and> steps ic r (mt @ rest, None) (rest, g)"
proof (induction ic r adv pre s rule: scan.induct)
  case (1 ic r adv pre s)
  show ?case
  proof (cases "match_at ic r adv s")
    case None
    with "1.prems" obtain x xs where s: "s = x # xs"
      and sc: "scan ic r False (x # pre) xs = Some (p, mt, g, rest)"
      by (subst (asm) scan.simps) (auto split: list.splits)
    from "1.IH"[OF None s sc] obtain q where "p = rev (x # pre) @ q" "xs = q @ mt @ rest"
      "steps ic r (mt @ rest, None) (rest, g)" by auto
    then show ?thesis unfolding s by (intro exI[of _ "x # q"]) simp
  next
    case (Some a)
    obtain s' g' where a: "a = (s', g')" by (cases a)
    from Some a "1.prems" have eqs: "p = rev pre" "mt = take (length s - length s') s"
      "g = g'" "rest = s'" by (subst (asm) scan.simps, simp)+
    from match_at_suffix(1)[OF Some[unfolded a]] obtain t where t: "s = t @ s'"
      by (auto simp: suffix_def)
    have ms: "mt @ rest = s" unfolding eqs t by simp
    from Some[unfolded a match_at_def] m_sound[of ic r "(s, None)" _ "(s', g')"]
    obtain st' where "steps ic r (s, None) st'"
      "(case st' of (s', g) \<Rightarrow> if adv then (if length s' = length s then None else Some (s', g))
                 else Some (s', g)) = Some (s', g')" by blast
    then have "steps ic r (s, None) (s', g')" by (auto split: prod.splits if_splits)
    with ms eqs show ?thesis by (intro exI[of _ "[]"]) simp
  qed
qed

lemma finditer_None: "scan ic r adv [] s = None \<Longrightarrow> finditer ic r adv s = ([], s)"
  by (subst finditer.simps) simp

lemma finditer_Some:
  "scan ic r adv [] s = Some (pre, mt, g, rest) \<Longrightarrow>
     finditer ic r adv s =
       ((pre, mt, g) # fst (finditer ic r (mt = []) rest), snd (finditer ic r (mt = []) rest))"
  by (subst finditer.simps) (simp split: prod.splits)

lemma findall_None: "scan ic r False [] s = None \<Longrightarrow> findall ic r s = []"
  by (simp add: findall_def finditer_None)

lemma findall_Some:
  "scan ic r False [] s = Some (pre, mt, g, rest) \<Longrightarrow>
     \<exists>vs. findall ic r s = findall_item r mt g # vs"
  by (simp add: findall_def finditer_Some)

lemma split_on_first: "\<exists>ws. split_on c s = takeWhile (\<lambda>x. x \<noteq> c) s # ws"
  by (induction s) (auto split: list.splits)

lemma index_split_on: "index (split_on newline s) 0 = Inr (first_line s)"
  using split_on_first[of newline s] by (auto simp: index_def first_line_def)

lemma index_Cons_0: "index (x # xs) 0 = Inr x"
  by (simp add: index_def)

lemma find_first_match_Cons:
  "find_first_match text (r # rs) =
     (case scan True r False [] text of
        None \<Rightarrow> find_first_match text rs
      | Some (pre, mt, g, rest) \<Rightarrow> Inr (Some (clean_value (findall_item r mt g))))"
proof (cases "scan True r False [] text")
  case None
  then show ?thesis by (simp add: findall_None)
next
  case (Some a)
  obtain pre mt g rest where a: "a = (pre, mt, g, rest)" by (cases a)
  from findall_Some[OF Some[unfolded a]] obtain vs
    where "findall True r text = findall_item r mt g # vs" by auto
  then show ?thesis
    by (simp add: Some a index_Cons_0 index_split_on clean_value_def Let_def)
qed

declare find_first_match.simps(2) [simp del]

lemma find_first_match_ffm: "find_first_match text rs = Inr (ffm text rs)"
proof (induction rs)
  case Nil
  show ?case by (simp add: ffm_def)
next
  case (Cons r rs)
  then show ?case
    unfolding ffm_def find_first_match_Cons by (auto split: option.splits)
qed

lemma mem_punct: "mem False (In [C CHR ''.'', C CHR '','', C CHR '':'', C CHR '';'']) x = is_punct x"
  by (auto simp: is_punct_def)

lemma rep_then_Eos:
  "newline \<notin> set s \<Longrightarrow>
   rep False c lo None s g (\<lambda>st. m False Eos st k) =
     (if list_all (mem False c) s \<and> lo \<le> length s then k ([], g) else None)"
proof (induction s arbitrary: lo)
  case Nil
  show ?case by simp
next
  case (Cons x xs)
  have x: "x \<noteq> newline" and xs: "newline \<notin> set xs" using Cons.prems by auto
  have eos: "m False Eos (x # xs, g) k = None" using x by simp
  show ?case
  proof (cases "mem False c x")
    case True
    have "rep False c lo None (x # xs) g (\<lambda>st. m False Eos st k) =
        rep False c (lo - 1) None xs g (\<lambda>st. m False Eos st k)"
      using True eos by (simp split: option.splits)
    also have "\<dots> = (if list_all (mem False c) xs \<and> lo - 1 \<le> length xs then k ([], g)
        else None)"
      by (rule Cons.IH[OF xs])
    finally show ?thesis using True by (auto simp: le_diff_conv)
  next
    case False
    then show ?thesis using eos by simp
  qed
qed

lemma match_at_trailing_punct:
  assumes "newline \<notin> set s"
  shows "match_at False trailing_punct adv s =
     (if s \<noteq> [] \<and> list_all is_punct s then Some ([], None) else None)"
proof -
  let ?k = "\<lambda>(s', g). if adv then (if length s' = length s then None else Some (s', g))
                 else Some (s', g)"
  have "match_at False trailing_punct adv s =
      (if list_all is_punct s \<and> 1 \<le> length s then ?k ([], None) else None)"
    unfolding match_at_def trailing_punct_def
    by (simp add: rep_then_Eos[OF assms] mem_punct[abs_def] del: m.simps(8) mem.simps)
  then show ?thesis by (cases s) auto
qed

lemma drop_trailing_Nil_iff: "drop_trailing P s = [] \<longleftrightarrow> list_all P s"
  by (induction s) auto

lemma scan_trailing_punct:
  "newline \<notin> set s \<Longrightarrow>
   scan False trailing_punct adv pre s =
     (if s \<noteq> [] \<and> is_punct (last s)
      then Some (rev pre @ drop_trailing is_punct s,
                 drop (length (drop_trailing is_punct s)) s, None, [])
      else None)"
proof (induction s arbitrary: pre adv)
  case Nil
  show ?case by (subst scan.simps) (simp add: match_at_trailing_punct)
next
  case (Cons x xs)
  have xs: "newline \<notin> set xs" using Cons.prems by auto
  show ?case
  proof (cases "list_all is_punct (x # xs)")
    case True
    then have "is_punct (last (x # xs))"
      unfolding list_all_iff using last_in_set[of "x # xs"] by blast
    then show ?thesis
      using True by (subst scan.simps) (simp add: match_at_trailing_punct[OF Cons.prems])
  next
    case False
    have "scan False trailing_punct adv pre (x # xs) = scan False trailing_punct False (x # pre) xs"
      using False by (subst scan.simps) (auto simp add: match_at_trailing_punct[OF Cons.prems])
    also note Cons.IH[OF xs, of False "x # pre"]
    finally have eq: "scan False trailing_punct adv pre (x # xs) =
      (if xs \<noteq> [] \<and> is_punct (last xs)
       then Some (rev (x # pre) @ drop_trailing is_punct xs,
                  drop (length (drop_trailing is_punct xs)) xs, None, [])
       else None)" .
    show ?thesis
    proof (cases "xs = []")
      case True
      with False eq show ?thesis by simp
    next
      case ne: False
      with eq False show ?thesis by auto
    qed
  qed
qed

lemma re_sub_trailing_punct:
  assumes "newline \<notin> set s"
  shows "re_sub False trailing_punct [] s = drop_trailing is_punct s"
proof (cases "s \<noteq> [] \<and> is_punct (last s)")
  case True
  have e: "scan False trailing_punct b [] [] = None" for b
    by (simp add: scan_trailing_punct)
  have "scan False trailing_punct False [] s =
      Some (drop_trailing is_punct s, drop (length (drop_trailing is_punct s)) s, None, [])"
    using True scan_trailing_punct[OF assms, of False "[]"] by simp
  from finditer_Some[OF this]
  have "finditer False trailing_punct False s =
      ([(drop_trailing is_punct s, drop (length (drop_trailing is_punct s)) s, None)], [])"
    by (simp add: finditer_None[OF e])
  then show ?thesis by (simp add: re_sub_def)
next
  case False
  then have "scan False trailing_punct False [] s = None"
    using scan_trailing_punct[OF assms, of False "[]"] by auto
  from finditer_None[OF this] have "re_sub False trailing_punct [] s = s"
    by (simp add: re_sub_def)
  moreover have "drop_trailing is_punct s = s"
    using False
  proof (induction s)
    case Nil
    show ?case by simp
  next
    case (Cons x xs)
    then show ?case
      using last_in_set[of "x # xs"] by (cases "xs = []") (auto simp: list_all_iff)
  qed
  ultimately show ?thesis by simp
qed

lemma drop_trailing_prefix: "prefix (drop_trailing P s) s"
  by (induction s) auto

lemma drop_trailing_last: "drop_trailing P s \<noteq> [] \<Longrightarrow> \<not> P (last (drop_trailing P s))"
  by (induction s) (auto simp: drop_trailing_Nil_iff split: if_splits)

lemma drop_trailing_hd: "drop_trailing P s \<noteq> [] \<Longrightarrow> hd (drop_trailing P s) = hd s"
  by (cases s) (auto split: if_splits)

lemma strip_hd: "strip s \<noteq> [] \<Longrightarrow> \<not> is_space (hd (strip s))"
proof -
  let ?t = "dropWhile is_space s"
  assume ne: "strip s \<noteq> []"
  have "?t = [] \<Longrightarrow> strip s = []"
    unfolding strip_def by (simp only: rev.simps dropWhile.simps)
  with ne have t: "?t \<noteq> []" by blast
  then have h: "\<not> is_space (hd ?t)" by (rule hd_dropWhile)
  have "strip s = rev (dropWhile is_space (rev ?t))" by (simp add: strip_def)
  moreover have "prefix (rev (dropWhile is_space (rev ?t))) ?t"
    by (metis prefix_def rev_append rev_rev_ident takeWhile_dropWhile_id)
  ultimately have "prefix (strip s) ?t" by simp
  with ne have "hd (strip s) = hd ?t" by (auto simp: prefix_def)
  with h show ?thesis by simp
qed

lemma set_strip: "set (strip s) \<subseteq> set s"
proof
  fix x
  assume "x \<in> set (strip s)"
  then have "x \<in> set (dropWhile is_space (rev (dropWhile is_space s)))"
    unfolding strip_def by (simp only: set_rev)
  then have "x \<in> set (rev (dropWhile is_space s))" by (rule set_dropWhileD)
  then have "x \<in> set (dropWhile is_space s)" by (simp only: set_rev)
  then show "x \<in> set s" by (rule set_dropWhileD)
qed

lemma newline_first_line: "newline \<notin> set (first_line s)"
  unfolding first_line_def by (induction s) auto

lemma clean_value_eq:
  "clean_value v = drop_trailing is_punct (strip (first_line (strip v)))"
  unfolding clean_value_def
  using set_strip[of "first_line (strip v)"] newline_first_line[of "strip v"]
  by (intro re_sub_trailing_punct) auto

lemma clean_value_props:
  "newline \<notin> set (clean_value v)"
  "clean_value v \<noteq> [] \<Longrightarrow> \<not> is_space (hd (clean_value v))"
  "clean_value v \<noteq> [] \<Longrightarrow> \<not> is_punct (last (clean_value v))"
proof -
  let ?w = "strip (first_line (strip v))"
  have nl: "newline \<notin> set ?w"
    using set_strip[of "first_line (strip v)"] newline_first_line[of "strip v"] by auto
  have "set (clean_value v) \<subseteq> set ?w"
    unfolding clean_value_eq by (rule set_mono_prefix[OF drop_trailing_prefix])
  with nl show "newline \<notin> set (clean_value v)" by auto
  show "\<not> is_punct (last (clean_value v))" if "clean_value v \<noteq> []"
    using that unfolding clean_value_eq by (rule drop_trailing_last)
  show "\<not> is_space (hd (clean_value v))" if ne: "clean_value v \<noteq> []"
  proof -
    from ne have "hd (clean_value v) = hd ?w"
      unfolding clean_value_eq by (rule drop_trailing_hd)
    moreover from ne have "?w \<noteq> []" unfolding clean_value_eq by auto
    ultimately show ?thesis using strip_hd[of "first_line (strip v)"] by simp
  qed
qed

lemma extract_data_eq:
  "extract_data text =
     Inr [(''Sender'', sender_value text),
          (''Receiver'', ffm text receiver_patterns),
          (''Amount'', ffm text amount_patterns),
          (''Bank_Details'', ffm text bank_patterns),
          (''Transaction_ID'', ffm text transaction_id_patterns),
          (''Reference_Number'', ffm text reference_patterns),
          (''Transaction_Status'', ffm text status_patterns)]"
  unfolding extract_data_def assign_def find_first_match_ffm sender_value_def
  by (simp add: bind_def setitem_def getitem_def data0_def)

lemma value_ok_clean: "value_ok (Some (clean_value v))"
  using clean_value_props[of v]
  by (auto simp: value_ok_def split: list.splits)

lemma value_ok_ffm: "value_ok (ffm text rs)"
proof (induction rs)
  case Nil
  show ?case by (simp add: ffm_def value_ok_def)
next
  case (Cons r rs)
  then show ?case
    unfolding ffm_def find_first_match_Cons
    by (auto split: option.splits simp: value_ok_clean)
qed

lemma value_ok_sender: "value_ok (sender_value text)"
  by (simp add: sender_value_def value_ok_ffm)

text \<open>
  Claim C2, as amended. For every text the record of \<open>extract_data\<close> has the seven declared
  keys, in their order, and each value is absent or a string of one line that, when it is
  not empty, starts with no whitespace and ends with none of \<open>.\<close>, \<open>,\<close>, \<open>:\<close>, \<open>;\<close>.
  (The claim as stated also asks for a non-empty value with no whitespace at its end; the
  record below shows both to fail.)
\<close>

theorem record_fields_present_and_cleaned:
  "\<exists>d. extract_data text = Inr d \<and>
     map fst d = [''Sender'', ''Receiver'', ''Amount'', ''Bank_Details'', ''Transaction_ID'',
                  ''Reference_Number'', ''Transaction_Status''] \<and>
     list_all value_ok (map snd d)"
  by (simp add: extract_data_eq value_ok_ffm value_ok_sender)

lemma steps_group_set: "steps ic r st st' \<Longrightarrow> ends_with_group r \<Longrightarrow> snd st' \<noteq> None"
  by (induction rule: steps.induct) auto

lemma re_search_group:
  assumes "ends_with_group r" "re_search ic r text = Some mt"
  shows "\<exists>v. snd mt = Some v"
proof -
  from assms(2) obtain pre g rest where "scan ic r False [] text = Some (pre, fst mt, g, rest)"
    and g: "snd mt = g"
    by (auto simp: re_search_def)
  from scan_sound[OF this(1)] have "steps ic r (fst mt @ rest, None) (rest, g)" by auto
  from steps_group_set[OF this assms(1)] g show ?thesis by auto
qed

lemma search_group1:
  assumes "ends_with_group r"
  shows "(case re_search True r t of Some mt \<Rightarrow> bind (group1 mt) f | None \<Rightarrow> X) =
         (case captured r t of Some v \<Rightarrow> f v | None \<Rightarrow> X)"
proof (cases "re_search True r t")
  case None
  then show ?thesis by (simp add: captured_def)
next
  case (Some mt)
  from re_search_group[OF assms Some] obtain v where "snd mt = Some v" by auto
  then show ?thesis by (simp add: Some captured_def group1_def bind_def)
qed

lemma strict_rules_end_with_group:
  "ends_with_group source_title_pattern" "ends_with_group sent_by_pattern"
  "ends_with_group destination_title_pattern" "ends_with_group to_pattern"
  "ends_with_group total_amount_pattern" "ends_with_group source_bank_pattern"
  "ends_with_group destination_bank_pattern"
  by (simp_all add: source_title_pattern_def sent_by_pattern_def destination_title_pattern_def
      to_pattern_def total_amount_pattern_def source_bank_pattern_def
      destination_bank_pattern_def name_chars_def word_chars_def)

lemma extract_clean_data_eq:
  "extract_clean_data text =
     (let t = re_sub False space_run '' '' text in
      Inr [(''Sender'', strict_sender t),
           (''Receiver'', strict_receiver t),
           (''Total_Amount'',
              map_option (\<lambda>v. strip (replace_char CHR '','' v)) (captured total_amount_pattern t)),
           (''Sender_Bank'', map_option strip (captured source_bank_pattern t)),
           (''Receiver_Bank'', map_option strip (captured destination_bank_pattern t))])"
  unfolding extract_clean_data_def Let_def search_group1[OF strict_rules_end_with_group(1)]
    search_group1[OF strict_rules_end_with_group(2)]
    search_group1[OF strict_rules_end_with_group(3)]
    search_group1[OF strict_rules_end_with_group(4)]
    search_group1[OF strict_rules_end_with_group(5)]
    search_group1[OF strict_rules_end_with_group(6)]
    search_group1[OF strict_rules_end_with_group(7)]
  by (simp add: bind_def setitem_def data0_clean_def strict_sender_def strict_receiver_def
      split: option.splits)

lemma findall_Nil_scan:
  assumes "findall ic r s = []"
  shows "scan ic r False [] s = None"
proof (cases "scan ic r False [] s")
  case None
  then show ?thesis .
next
  case (Some a)
  obtain pre mt g rest where "a = (pre, mt, g, rest)" by (cases a)
  with Some findall_Some[of ic r s pre mt g rest] assms show ?thesis by auto
qed

lemma findall_Cons_scan:
  assumes "findall ic r s = v # vs"
  shows "\<exists>pre mt g rest. scan ic r False [] s = Some (pre, mt, g, rest) \<and>
           findall_item r mt g = v"
proof (cases "scan ic r False [] s")
  case None
  from findall_None[OF this] assms show ?thesis by simp
next
  case (Some a)
  obtain pre mt g rest where a: "a = (pre, mt, g, rest)" by (cases a)
  from assms findall_Some[OF Some[unfolded a]] have "findall_item r mt g = v" by auto
  with Some a show ?thesis by auto
qed

lemma ffm_no_match: "list_all (\<lambda>r. findall True r text = []) rs \<Longrightarrow> ffm text rs = None"
proof (induction rs)
  case Nil
  show ?case by (simp add: ffm_def)
next
  case (Cons r rs)
  then have "scan True r False [] text = None" "ffm text rs = None"
    by (auto dest: findall_Nil_scan)
  then show ?case by (simp add: ffm_def find_first_match_Cons)
qed

lemma extract_data_no_match:
  assumes "list_all (\<lambda>r. findall True r text = []) broad_rules"
  shows "extract_data text = Inr data0"
proof -
  have a: "list_all (\<lambda>r. findall True r text = []) rs" if "set rs \<subseteq> set broad_rules" for rs
    using assms that unfolding list_all_iff by blast
  have "ffm text sender_patterns = None" "ffm text receiver_patterns = None"
    "ffm text amount_patterns = None" "ffm text bank_patterns = None"
    "ffm text transaction_id_patterns = None" "ffm text reference_patterns = None"
    "ffm text status_patterns = None" "ffm text [override_sender_pattern] = None"
    by (rule ffm_no_match, rule a, auto simp add: broad_rules_def)+
  then show ?thesis
    by (simp add: extract_data_eq sender_value_def falsy_def data0_def)
qed

lemma extract_clean_data_no_match:
  assumes "list_all (\<lambda>r. re_search True r (re_sub False space_run '' '' text) = None) strict_rules"
  shows "extract_clean_data text = Inr data0_clean"
  using assms
  by (simp add: extract_clean_data_eq strict_rules_def captured_def strict_sender_def
      strict_receiver_def data0_clean_def Let_def)

text \<open>
  Claim C7. Extraction raises nothing: for every text both extractors return a record
  (the reads \<open>matches[0]\<close>, \<open>split(..)[0]\<close>, \<open>data["Sender"]\<close> and \<open>group(1).strip()\<close> are
  the places where the source could raise, and none of them does). When no rule of an
  extractor matches the text, its record has every field absent.
\<close>

theorem extraction_always_returns_a_record:
  "(\<exists>d. extract_data text = Inr d) \<and> (\<exists>d. extract_clean_data text = Inr d) \<and>
   (list_all (\<lambda>r. findall True r text = []) broad_rules \<longrightarrow> extract_data text = Inr data0) \<and>
   (list_all (\<lambda>r. re_search True r (re_sub False space_run '' '' text) = None) strict_rules
      \<longrightarrow> extract_clean_data text = Inr data0_clean)"
  using extract_data_no_match[of "text"] extract_clean_data_no_match[of "text"]
  by (simp add: extract_data_eq extract_clean_data_eq Let_def)

theorem extraction_always_returns_a_record_witness:
  "list_all (\<lambda>r. findall True r ''hello world'' = []) broad_rules \<and>
   extract_data ''hello world'' = Inr data0 \<and>
   list_all (\<lambda>r. re_search True r (re_sub False space_run '' '' ''hello world'') = None)
     strict_rules \<and>
   extract_clean_data ''hello world'' = Inr data0_clean"
proof -
  have 1: "list_all (\<lambda>r. findall True r ''hello world'' = []) broad_rules"
    by code_simp
  have 2: "list_all (\<lambda>r. re_search True r (re_sub False space_run '' '' ''hello world'') = None)
     strict_rules"
    by code_simp
  from 1 2 extraction_always_returns_a_record[of "''hello world''"] show ?thesis by blast
qed

lemma find_first_match_priority:
  assumes "list_all (\<lambda>p. findall True p text = []) pre" "findall True r text = v # vs"
  shows "find_first_match text (pre @ r # post) = Inr (Some (clean_value v))"
  using assms(1)
proof (induction pre)
  case Nil
  from findall_Cons_scan[OF assms(2)] show ?case
    by (auto simp: find_first_match_Cons)
next
  case (Cons p pre)
  then have "scan True p False [] text = None" by (auto dest: findall_Nil_scan)
  with Cons show ?case by (simp add: find_first_match_Cons)
qed

lemma sender_primary_wins:
  assumes "find_first_match text sender_patterns = Inr (Some w)" "w \<noteq> []"
  shows "bind (extract_data text) (\<lambda>d. getitem d ''Sender'') = Inr (Some w)"
proof -
  from assms(1) have "ffm text sender_patterns = Some w" by (simp add: ffm_def)
  with assms(2) show ?thesis
    by (simp add: extract_data_eq bind_def getitem_def sender_value_def falsy_def)
qed

lemma sender_override_used:
  assumes "find_first_match text sender_patterns = Inr v" "falsy v"
  shows "bind (extract_data text) (\<lambda>d. getitem d ''Sender'')
           = find_first_match text [override_sender_pattern]"
proof -
  from assms(1) have "ffm text sender_patterns = v" by (simp add: ffm_def)
  with assms(2) show ?thesis
    by (simp add: extract_data_eq bind_def getitem_def sender_value_def find_first_match_ffm)
qed

text \<open>
  Claim C5, as amended. The rules of a field are tried in their order and the first one
  with a match gives the value: when no rule of \<open>pre\<close> matches and \<open>r\<close> does, the value is
  the cleaned first match of \<open>r\<close>, whatever the rules after it would give. For Sender,
  a primary value that is a non-empty string is the value of the record, whether or not
  the override rule matches; a primary value that is absent or empty is replaced by the
  result of the override rule.
\<close>

theorem first_matching_rule_wins:
  "(list_all (\<lambda>p. findall True p text = []) pre \<and> findall True r text = v # vs \<longrightarrow>
      find_first_match text (pre @ r # post) = Inr (Some (clean_value v))) \<and>
   (find_first_match text sender_patterns = Inr (Some w) \<and> w \<noteq> [] \<longrightarrow>
      bind (extract_data text) (\<lambda>d. getitem d ''Sender'') = Inr (Some w)) \<and>
   (find_first_match text sender_patterns = Inr u \<and> falsy u \<longrightarrow>
      bind (extract_data text) (\<lambda>d. getitem d ''Sender'')
        = find_first_match text [override_sender_pattern])"
  using find_first_match_priority[of "text" pre r v vs post] sender_primary_wins[of "text" w]
    sender_override_used[of "text" u]
  by blast

theorem first_matching_rule_wins_witness:
  "list_all (\<lambda>p. findall True p ''Paid by Al Amount: 5'' = []) [amount_patterns ! 0] \<and>
   findall True (amount_patterns ! 1) ''Paid by Al Amount: 5'' = [''5''] \<and>
   find_first_match ''Paid by Al Amount: 5'' ([amount_patterns ! 0] @ amount_patterns ! 1 # [])
     = Inr (Some (clean_value ''5'')) \<and>
   findall True override_sender_pattern ''Paid by Al Amount: 5'' \<noteq> [] \<and>
   find_first_match ''Paid by Al Amount: 5'' sender_patterns = Inr (Some ''Al Amount: 5'') \<and>
   bind (extract_data ''Paid by Al Amount: 5'') (\<lambda>d. getitem d ''Sender'')
     = Inr (Some ''Al Amount: 5'') \<and>
   find_first_match ''by Bob From:'' sender_patterns = Inr (Some []) \<and>
   bind (extract_data ''by Bob From:'') (\<lambda>d. getitem d ''Sender'')
     = find_first_match ''by Bob From:'' [override_sender_pattern]"
proof -
  have 1: "list_all (\<lambda>p. findall True p ''Paid by Al Amount: 5'' = []) [amount_patterns ! 0]"
    by code_simp
  have 2: "findall True (amount_patterns ! 1) ''Paid by Al Amount: 5'' = [''5'']"
    by code_simp
  have 3: "findall True override_sender_pattern ''Paid by Al Amount: 5'' \<noteq> []"
    by code_simp
  have 4: "find_first_match ''Paid by Al Amount: 5'' sender_patterns = Inr (Some ''Al Amount: 5'')"
    by code_simp
  have 5: "''Al Amount: 5'' \<noteq> []" by simp
  have 6: "find_first_match ''by Bob From:'' sender_patterns = Inr (Some [])"
    by code_simp
  have 7: "falsy (Some [])" by (simp add: falsy_def)
  from first_matching_rule_wins[of "''Paid by Al Amount: 5''" "[amount_patterns ! 0]"
      "amount_patterns ! 1" "''5''" "[]" "[]" "''Al Amount: 5''" "None"] 1 2 4 5
  have a: "find_first_match ''Paid by Al Amount: 5'' ([amount_patterns ! 0] @ amount_patterns ! 1 # [])
     = Inr (Some (clean_value ''5''))"
    and b: "bind (extract_data ''Paid by Al Amount: 5'') (\<lambda>d. getitem d ''Sender'')
     = Inr (Some ''Al Amount: 5'')" by blast+
  from first_matching_rule_wins[of "''by Bob From:''" "[]" "amount_patterns ! 1" "[]" "[]" "[]"
      "[]" "Some []"] 6 7
  have c: "bind (extract_data ''by Bob From:'') (\<lambda>d. getitem d ''Sender'')
     = find_first_match ''by Bob From:'' [override_sender_pattern]" by blast
  from 1 2 3 4 6 a b c show ?thesis by blast
qed

text \<open>
  The text \<open>by Bob From:\<close> matches the primary sender rule (at \<open>From:\<close>, with an empty
  value) and the override rule (at \<open>by\<close>); the Sender of the record is the override's
  \<open>Bob From\<close>, not the primary result. So claim C5 does not hold as stated.
\<close>

theorem override_replaces_empty_primary:
  "findall True (sender_patterns ! 0) ''by Bob From:'' \<noteq> [] \<and>
   findall True override_sender_pattern ''by Bob From:'' \<noteq> [] \<and>
   find_first_match ''by Bob From:'' sender_patterns = Inr (Some []) \<and>
   bind (extract_data ''by Bob From:'') (\<lambda>d. getitem d ''Sender'') = Inr (Some ''Bob From'')"
  by code_simp

lemma lit_rest_append: "lit_rest ic w s = Some s' \<Longrightarrow> \<exists>t. s = t @ s' \<and> length t = length w"
proof (induction ic w s rule: lit_rest.induct)
  case (3 ic c cs x xs)
  then obtain t where "xs = t @ s'" "length t = length cs" by (auto split: if_splits)
  then show ?case by (intro exI[of _ "x # t"]) simp
qed auto

lemma sublist_in_append:
  "sublist v t1 \<Longrightarrow> sublist v (t1 @ t2)" "sublist v t2 \<Longrightarrow> sublist v (t1 @ t2)"
proof -
  show "sublist v (t1 @ t2)" if "sublist v t1"
  proof -
    from that obtain ps ss where "t1 = ps @ v @ ss" by (auto simp: sublist_def)
    then have "t1 @ t2 = ps @ v @ (ss @ t2)" by simp
    then show ?thesis unfolding sublist_def by blast
  qed
  show "sublist v (t1 @ t2)" if "sublist v t2"
  proof -
    from that obtain ps ss where "t2 = ps @ v @ ss" by (auto simp: sublist_def)
    then have "t1 @ t2 = (t1 @ ps) @ v @ ss" by simp
    then show ?thesis unfolding sublist_def by blast
  qed
qed

lemma steps_consumed:
  "steps ic r st st' \<Longrightarrow>
     \<exists>t. fst st = t @ fst st' \<and> (snd st' = snd st \<or> (\<exists>v. snd st' = Some v \<and> sublist v t))"
proof (induction rule: steps.induct)
  case (st_Lit w s s' g)
  then show ?case by (auto dest: lit_rest_append)
next
  case (st_Chr c x xs g)
  show ?case by (intro exI[of _ "[x]"]) simp
next
  case (st_Rep c t lo hi s' g)
  show ?case by (intro exI[of _ t]) simp
next
  case (st_Seq a st st1 b st2)
  then obtain t1 t2 where 1: "fst st = t1 @ fst st1"
    "snd st1 = snd st \<or> (\<exists>v. snd st1 = Some v \<and> sublist v t1)"
    and 2: "fst st1 = t2 @ fst st2"
    "snd st2 = snd st1 \<or> (\<exists>v. snd st2 = Some v \<and> sublist v t2)" by auto
  have "fst st = (t1 @ t2) @ fst st2" using 1(1) 2(1) by simp
  moreover have "snd st2 = snd st \<or> (\<exists>v. snd st2 = Some v \<and> sublist v (t1 @ t2))"
    using 1(2) 2(2) by (auto intro: sublist_in_append)
  ultimately show ?case by blast
next
  case (st_Grp a s g s' g')
  then obtain t where t: "s = t @ s'" by auto
  then have "take (length s - length s') s = t" by simp
  with t show ?case by (intro exI[of _ t]) simp
next
  case (st_Eos s g)
  show ?case by (intro exI[of _ "[]"]) simp
qed auto

lemma scan_match:
  assumes "scan ic r False [] s = Some (pre, mt, g, rest)"
  shows "s = pre @ mt @ rest" "case g of None \<Rightarrow> True | Some v \<Rightarrow> sublist v mt"
proof -
  from scan_sound[OF assms] have s: "s = pre @ mt @ rest"
    and st: "steps ic r (mt @ rest, None) (rest, g)" by auto
  show "s = pre @ mt @ rest" by (rule s)
  from steps_consumed[OF st] obtain t where "mt @ rest = t @ rest"
    "g = None \<or> (\<exists>v. g = Some v \<and> sublist v t)" by auto
  then show "case g of None \<Rightarrow> True | Some v \<Rightarrow> sublist v mt" by (auto split: option.splits)
qed

text \<open>
  Claim C4, as amended. For every text and rule: when the rule has no match its value is
  absent; otherwise the first match \<open>mt\<close> is a part of the text, and the value is the
  cleaned text of the capture group when the rule has one (the group lies inside the
  match), and the cleaned text of the whole match when it has none.
\<close>

theorem value_of_a_rule:
  "(scan True r False [] text = None \<longrightarrow> find_first_match text [r] = Inr None) \<and>
   (scan True r False [] text = Some (pre, mt, g, rest) \<longrightarrow>
      text = pre @ mt @ rest \<and>
      (case g of None \<Rightarrow> True | Some v \<Rightarrow> sublist v mt) \<and>
      find_first_match text [r] =
        Inr (Some (clean_value
          (if has_group r then (case g of None \<Rightarrow> [] | Some v \<Rightarrow> v) else mt))))"
  using scan_match[of True r "text" pre mt g rest]
  by (auto simp: find_first_match_Cons findall_item_def)

theorem value_of_a_rule_witness:
  "scan True (bank_patterns ! 0) False [] ''at Silk Bank.'' = Some (''at '', ''Silk Bank'', None, ''.'') \<and>
   \<not> has_group (bank_patterns ! 0) \<and>
   find_first_match ''at Silk Bank.'' [bank_patterns ! 0] = Inr (Some (clean_value ''Silk Bank'')) \<and>
   scan True (bank_patterns ! 1) False [] ''Acct No. 12-3*, x''
     = Some ([], ''Acct No. 12-3*'', Some ''12-3*'', '', x'') \<and>
   has_group (bank_patterns ! 1) \<and> sublist ''12-3*'' ''Acct No. 12-3*'' \<and>
   find_first_match ''Acct No. 12-3*, x'' [bank_patterns ! 1] = Inr (Some (clean_value ''12-3*'')) \<and>
   scan True (bank_patterns ! 1) False [] ''Silk Bank'' = None \<and>
   find_first_match ''Silk Bank'' [bank_patterns ! 1] = Inr None"
proof -
  have 1: "scan True (bank_patterns ! 0) False [] ''at Silk Bank.''
      = Some (''at '', ''Silk Bank'', None, ''.'')" by code_simp
  have 2: "\<not> has_group (bank_patterns ! 0)" by code_simp
  have 3: "scan True (bank_patterns ! 1) False [] ''Acct No. 12-3*, x''
     = Some ([], ''Acct No. 12-3*'', Some ''12-3*'', '', x'')" by code_simp
  have 4: "has_group (bank_patterns ! 1)" by code_simp
  have 5: "scan True (bank_patterns ! 1) False [] ''Silk Bank'' = None" by code_simp
  from value_of_a_rule[of "bank_patterns ! 0" "''at Silk Bank.''" "''at ''" "''Silk Bank''" None "''.''"]
    1 2
  have a: "find_first_match ''at Silk Bank.'' [bank_patterns ! 0]
      = Inr (Some (clean_value ''Silk Bank''))" by simp
  from value_of_a_rule[of "bank_patterns ! 1" "''Acct No. 12-3*, x''" "[]" "''Acct No. 12-3*''"
      "Some ''12-3*''" "'', x''"] 3 4
  have b: "sublist ''12-3*'' ''Acct No. 12-3*''"
    "find_first_match ''Acct No. 12-3*, x'' [bank_patterns ! 1] = Inr (Some (clean_value ''12-3*''))"
    by simp_all
  from value_of_a_rule[of "bank_patterns ! 1" "''Silk Bank''"] 5
  have c: "find_first_match ''Silk Bank'' [bank_patterns ! 1] = Inr None" by simp
  from 1 2 3 4 5 a b c show ?thesis by blast
qed

text \<open>
  The first bank rule has no capture group, and for the text \<open>Silk Bank\<close> it gives the
  value \<open>Silk Bank\<close>: a rule without a group does yield a match (claim C4 says it yields
  none).
\<close>

theorem bank_rule_without_group_yields_value:
  "\<not> has_group (bank_patterns ! 0) \<and>
   find_first_match ''Silk Bank'' [bank_patterns ! 0] = Inr (Some ''Silk Bank'') \<and>
   bind (extract_data ''Silk Bank'') (\<lambda>d. getitem d ''Bank_Details'') = Inr (Some ''Silk Bank'')"
  by code_simp

lemma process_image_cases:
  "process_image e f =
     (case imread e f of
        None \<Rightarrow> Inl ValueError
      | Some img \<Rightarrow>
         (case image_to_string e (threshold e False True img) of
            Inl err \<Rightarrow> Inl err
          | Inr t \<Rightarrow> bind (extract_data (normalize t))
                      (\<lambda>parsed. Inr (setitem parsed ''Image'' (Some (basename e f))))))"
  by (simp add: process_image_def preprocess_image_def extract_text_from_image_def bind_def
      split: option.splits sum.splits)

lemma process_image_row:
  "decodes e f \<Longrightarrow>
     \<exists>d. process_image e f = Inr d \<and> map fst d = row_keys \<and>
         map_of d ''Image'' = Some (Some (basename e f))"
  unfolding process_image_cases decodes_def
  by (auto simp: extract_data_eq bind_def setitem_def row_keys_def split: option.splits sum.splits)

lemma process_image_fails:
  "\<not> decodes e f \<Longrightarrow> \<exists>err. process_image e f = Inl err"
  unfolding process_image_cases decodes_def
  by (auto split: option.splits sum.splits)

lemma process_images_rows:
  "\<exists>rows. fst (process_images e files (acc, out)) = acc @ rows \<and>
     map (\<lambda>d. map_of d ''Image'') rows
       = map (\<lambda>f. Some (Some (basename e f))) (filter (decodes e) files) \<and>
     list_all (\<lambda>d. map fst d = row_keys) rows \<and>
     length (snd (process_images e files (acc, out))) = length out + length files"
proof (induction files arbitrary: acc out)
  case Nil
  show ?case by simp
next
  case (Cons f files)
  show ?case
  proof (cases "decodes e f")
    case True
    from process_image_row[OF True] obtain d where d: "process_image e f = Inr d"
      "map fst d = row_keys" "map_of d ''Image'' = Some (Some (basename e f))" by auto
    from Cons[of "acc @ [d]" "out @ [Processed f]"] obtain rows where
      "fst (process_images e files (acc @ [d], out @ [Processed f])) = (acc @ [d]) @ rows"
      "map (\<lambda>d. map_of d ''Image'') rows
         = map (\<lambda>f. Some (Some (basename e f))) (filter (decodes e) files)"
      "list_all (\<lambda>d. map fst d = row_keys) rows"
      "length (snd (process_images e files (acc @ [d], out @ [Processed f])))
         = length (out @ [Processed f]) + length files" by blast
    then show ?thesis
      using True d by (intro exI[of _ "d # rows"]) simp
  next
    case False
    from process_image_fails[OF False] obtain err where err: "process_image e f = Inl err"
      by auto
    from Cons[of acc "out @ [Error_processing f err]"] obtain rows where
      "fst (process_images e files (acc, out @ [Error_processing f err])) = acc @ rows"
      "map (\<lambda>d. map_of d ''Image'') rows
         = map (\<lambda>f. Some (Some (basename e f))) (filter (decodes e) files)"
      "list_all (\<lambda>d. map fst d = row_keys) rows"
      "length (snd (process_images e files (acc, out @ [Error_processing f err])))
         = length (out @ [Error_processing f err]) + length files" by blast
    then show ?thesis
      using False err by (intro exI[of _ rows]) simp
  qed
qed

lemma unreadable_not_decoded:
  "imread e f = None \<Longrightarrow> \<not> decodes e f \<and> process_image e f = Inl ValueError"
  by (simp add: decodes_def process_image_cases)

text \<open>
  Claim C6. The loop over the images appends one complete row (the seven fields and the
  image name) for each image that is read and recognised, in the order of the input, and
  none for an image whose processing raises; it goes on after a failure, with one line of
  output per image. An image that \<open>imread\<close> cannot decode raises \<open>ValueError\<close> in
  \<open>preprocess_image\<close> and is among those skipped. The witness is the batch of five
  images of which the third cannot be decoded: four rows, for the images 1, 2, 4, 5.
\<close>

theorem failed_images_are_skipped:
  "map (\<lambda>d. map_of d ''Image'') (fst (process_images e files ([], [])))
     = map (\<lambda>f. Some (Some (basename e f))) (filter (decodes e) files) \<and>
   list_all (\<lambda>d. map fst d = row_keys) (fst (process_images e files ([], []))) \<and>
   length (snd (process_images e files ([], []))) = length files \<and>
   (imread e f = None \<longrightarrow> \<not> decodes e f \<and> process_image e f = Inl ValueError)"
  using process_images_rows[of e files "[]" "[]"] unreadable_not_decoded[of e f]
  by auto

theorem failed_images_are_skipped_witness:
  "imread five_images ''3.jpg'' = None \<and>
   process_image five_images ''3.jpg'' = Inl ValueError \<and>
   map (\<lambda>d. map_of d ''Image'')
     (fst (process_images five_images [''1.jpg'', ''2.jpg'', ''3.jpg'', ''4.jpg'', ''5.jpg''] ([], [])))
     = [Some (Some ''1.jpg''), Some (Some ''2.jpg''), Some (Some ''4.jpg''), Some (Some ''5.jpg'')] \<and>
   length (fst (process_images five_images
     [''1.jpg'', ''2.jpg'', ''3.jpg'', ''4.jpg'', ''5.jpg''] ([], []))) = 4"
proof -
  let ?files = "[''1.jpg'', ''2.jpg'', ''3.jpg'', ''4.jpg'', ''5.jpg'']"
  have 1: "imread five_images ''3.jpg'' = None" by (simp add: five_images_def)
  have 2: "map (\<lambda>f. Some (Some (basename five_images f))) (filter (decodes five_images) ?files)
      = [Some (Some ''1.jpg''), Some (Some ''2.jpg''), Some (Some ''4.jpg''), Some (Some ''5.jpg'')]"
    by (simp add: five_images_def decodes_def)
  from failed_images_are_skipped[of five_images ?files "''3.jpg''"] 1 2
  have a: "process_image five_images ''3.jpg'' = Inl ValueError"
    and b: "map (\<lambda>d. map_of d ''Image'') (fst (process_images five_images ?files ([], [])))
      = [Some (Some ''1.jpg''), Some (Some ''2.jpg''), Some (Some ''4.jpg''), Some (Some ''5.jpg'')]"
    by simp_all
  from arg_cong[OF b, of length] have "length (fst (process_images five_images ?files ([], []))) = 4"
    by simp
  with 1 a b show ?thesis by blast
qed

section \<open>Evaluation of the extractor on the specification's examples\<close>

text \<open>
  The record for the text \<open>To a Rs ,\<close>: the Receiver ends in a space (the punctuation is
  removed after the whitespace) and the Amount is the empty string, so the invariant as
  the specification states it (claim C2) does not hold of either value.
\<close>

theorem record_with_empty_and_untrimmed_values:
  "extract_data ''To a Rs ,'' =
     Inr [(''Sender'', None), (''Receiver'', Some ''a Rs ''), (''Amount'', Some []),
          (''Bank_Details'', None), (''Transaction_ID'', None), (''Reference_Number'', None),
          (''Transaction_Status'', None)] \<and>
   \<not> claimed_value_ok (Some ''a Rs '') \<and> \<not> claimed_value_ok (Some [])"
  by code_simp


text \<open>
  Claim C1. For the text
  \<open>From: Alice Khan To: Bob Shah Amount: Rs. 1,250.00 Transaction ID: TXN99123 Transaction Successful\<close>
  the specification expects Sender \<open>Alice Khan\<close> and Receiver \<open>Bob Shah\<close>. The record that
  \<open>extract_data\<close> returns is the one below: Amount, Transaction_ID and
  Transaction_Status are as expected, but the groups \<open>(.*)\<close> of the sender and receiver
  rules run to the end of the line, and a cleaned text has one line only, so Sender and
  Receiver hold everything after their labels.
\<close>

theorem example_record_of_extract_data:
  "extract_data ''From: Alice Khan To: Bob Shah Amount: Rs. 1,250.00 Transaction ID: TXN99123 Transaction Successful'' =
     Inr [(''Sender'', Some ''Alice Khan To: Bob Shah Amount: Rs. 1,250.00 Transaction ID: TXN99123 Transaction Successful''),
          (''Receiver'', Some ''Bob Shah Amount: Rs. 1,250.00 Transaction ID: TXN99123 Transaction Successful''),
          (''Amount'', Some ''1,250.00''), (''Bank_Details'', None),
          (''Transaction_ID'', Some ''TXN99123''), (''Reference_Number'', None),
          (''Transaction_Status'', Some ''Transaction Successful'')]"
  by code_simp

text \<open>
  Claim C10. The text \<open>Total Amount Rs. 500.00\<close> is a cleaned text (cleaning it again
  changes nothing), none of its words is a receiver label, and yet the broad extractor
  returns the Receiver \<open>tal Amount Rs. 500.00\<close>: the keyword \<open>To\<close> matches the first two
  letters of \<open>Total\<close>, case-insensitively and without a word boundary.
\<close>

theorem receiver_matches_inside_a_word:
  "normalize ''Total Amount Rs. 500.00'' = ''Total Amount Rs. 500.00'' \<and>
   split_on CHR '' '' ''Total Amount Rs. 500.00'' = [''Total'', ''Amount'', ''Rs.'', ''500.00''] \<and>
   bind (extract_data ''Total Amount Rs. 500.00'') (\<lambda>d. getitem d ''Receiver'')
     = Inr (Some ''tal Amount Rs. 500.00'')"
  by code_simp

end
